theory Spec2Isabelle
  imports Complex_Main "HOL-Library.Multiset"
begin

section \<open>Technology choice on a network: the model of \<open>final_market_share.py\<close>\<close>

text \<open>
  The script defines an \<open>Agent\<close> class, a \<open>Simulation\<close> class, an \<open>Experiment\<close>
  class and the helper \<open>largest_and_second_largest_MS\<close>. The embedding follows the
  script method by method.

  Conventions.
  \<^item> Python integers are \<open>int\<close>; a technology (an element of \<open>range(n_technologies)\<close>)
    and an index into a list are \<open>nat\<close>; Python floats are idealised as \<open>real\<close>.
  \<^item> Every exception the script can raise is a value \<open>Inl e\<close> of \<open>py_error + 'a\<close>.
  \<^item> A dictionary is a map; a missing key is \<open>KeyError\<close>.
  \<^item> An agent object is referred to by its position in \<open>agents_list\<close>; the network
    stores, for every node, the list of its neighbours' node numbers.
  \<^item> The libraries are not part of the script. The network returned by the
    \<open>networkx\<close> generator and the sample returned by
    \<open>np.random.choice(..., replace=False, size=...)\<close> are arguments of the
    constructor. The draws of numpy's global generator during \<open>run\<close> are a sequence
    \<open>rs :: nat \<Rightarrow> real\<close> of uniform numbers; a counter says how many have been
    taken, and every call of \<open>np.random\<close> in \<open>run\<close> and \<open>choose\<close> takes exactly one.
\<close>

subsection \<open>Python primitives\<close>

datatype py_error = AssertionError | ValueError | IndexError | KeyError | ZeroDivisionError

text \<open>
  \<open>c ** a\<close> for a count \<open>c \<ge> 0\<close>: Python gives \<open>0 ** 0 = 1\<close>, \<open>0 ** a = 0\<close> for
  \<open>a > 0\<close>, and raises \<open>ZeroDivisionError\<close> for \<open>0 ** a\<close> with \<open>a < 0\<close>.
\<close>

definition py_pow :: "nat \<Rightarrow> real \<Rightarrow> py_error + real" where
  "py_pow c a =
     (if c = 0
      then (if a < 0 then Inl ZeroDivisionError else if a = 0 then Inr 1 else Inr 0)
      else Inr (real c powr a))"

text \<open>True division \<open>a / b\<close> of two Python integers.\<close>

definition py_truediv :: "int \<Rightarrow> int \<Rightarrow> py_error + real" where
  "py_truediv a b = (if b = 0 then Inl ZeroDivisionError else Inr (real_of_int a / real_of_int b))"

text \<open>\<open>range(n)\<close> for a Python integer \<open>n\<close>; empty when \<open>n \<le> 0\<close>.\<close>

definition py_range :: "int \<Rightarrow> nat list" where
  "py_range n = [0..<nat n]"

text \<open>The dictionary comprehension \<open>{tech: v for tech in keys}\<close>.\<close>

definition dict_const :: "nat list \<Rightarrow> 'v \<Rightarrow> (nat \<rightharpoonup> 'v)" where
  "dict_const keys v = map_of (map (\<lambda>tech. (tech, v)) keys)"

text \<open>\<open>d[k] += v\<close> on a dictionary of integers.\<close>

definition dict_add :: "(nat \<rightharpoonup> int) \<Rightarrow> nat \<Rightarrow> int \<Rightarrow> py_error + (nat \<rightharpoonup> int)" where
  "dict_add d k v = (case d k of None \<Rightarrow> Inl KeyError | Some c \<Rightarrow> Inr (d(k \<mapsto> c + v)))"

subsection \<open>The calls of \<open>np.random\<close>\<close>

text \<open>
  \<open>np.random.choice(a)\<close> on a list of \<open>n\<close> elements: \<open>ValueError\<close> on the empty list,
  otherwise a position below \<open>n\<close>, here the one the uniform number \<open>u\<close> falls into.
\<close>

definition np_random_choice :: "nat \<Rightarrow> real \<Rightarrow> py_error + nat" where
  "np_random_choice n u = (if n = 0 then Inl ValueError else Inr (nat \<lfloor>u * real n\<rfloor>))"

text \<open>
  \<open>np.random.choice(a, p=p)\<close>: the cumulative sums of \<open>p\<close> are searched for the
  uniform number \<open>u\<close> (\<open>searchsorted\<close>, \<open>side='right'\<close>); the result is the element of
  \<open>a\<close> at the number of cumulative sums that are at most \<open>u\<close>.
\<close>

fun cumsum :: "real \<Rightarrow> real list \<Rightarrow> real list" where
  "cumsum acc [] = []"
| "cumsum acc (x # xs) = (acc + x) # cumsum (acc + x) xs"

definition np_random_choice_p :: "nat list \<Rightarrow> real list \<Rightarrow> real \<Rightarrow> py_error + nat" where
  "np_random_choice_p a p u =
     (let idx = length (filter (\<lambda>c. c \<le> u) (cumsum 0 p))
      in if idx < length a then Inr (a ! idx) else Inl IndexError)"

text \<open>
  \<open>np.random.choice(a, replace=False, size=size)\<close> on a population of \<open>pop\<close> elements:
  \<open>ValueError\<close> for a negative size and for a sample larger than the population,
  otherwise the sample \<open>outcome\<close> the generator produced.
\<close>

definition np_random_choice_sample :: "nat \<Rightarrow> int \<Rightarrow> nat list \<Rightarrow> py_error + nat list" where
  "np_random_choice_sample pop k outcome =
     (if k < 0 \<or> int pop < k then Inl ValueError else Inr outcome)"

subsection \<open>Data\<close>

record config =
  n_agents :: int
  n_technologies :: int
  n_initial_adopters :: int
  reconsideration_probability :: real
  choice_function_exponent :: real
  network_type :: string
  t_max :: int

record agent =
  id_number :: nat
  technology :: "nat option"
  choice_function_exponent :: real

record simulation = config +
  technologies_list :: "nat list"
  tech_frequency :: "nat \<rightharpoonup> int"
  G :: "nat list list"
  agents_list :: "agent list"
  history_tech_frequency :: "nat \<rightharpoonup> real list"
  history_t :: "int list"

subsection \<open>Agent\<close>

definition Agent :: "nat \<Rightarrow> real \<Rightarrow> agent" where
  "Agent i a = \<lparr>id_number = i, technology = None, choice_function_exponent = a\<rparr>"

definition get_technology :: "agent \<Rightarrow> nat option" where
  "get_technology A = technology A"

definition set_technology :: "agent \<Rightarrow> nat \<Rightarrow> agent" where
  "set_technology A tech = A\<lparr>technology := Some tech\<rparr>"

definition get_neighbors :: "simulation \<Rightarrow> agent \<Rightarrow> agent list" where
  "get_neighbors S A = map (\<lambda>N. agents_list S ! N) (G S ! id_number A)"

text \<open>The loop over the neighbours in \<open>choose\<close>, on the local dictionary of counts.\<close>

fun count_neighbors :: "(nat \<rightharpoonup> nat) \<Rightarrow> agent list \<Rightarrow> py_error + (nat \<rightharpoonup> nat)" where
  "count_neighbors tf [] = Inr tf"
| "count_neighbors tf (A # as) =
     (case get_technology A of
        None \<Rightarrow> count_neighbors tf as
      | Some tech \<Rightarrow>
          (case tf tech of
             None \<Rightarrow> Inl KeyError
           | Some c \<Rightarrow> count_neighbors (tf(tech \<mapsto> c + 1)) as))"

text \<open>The list comprehension \<open>[tech_frequency[tech] ** exponent for tech in tech_list]\<close>.\<close>

fun choice_weights :: "(nat \<rightharpoonup> nat) \<Rightarrow> real \<Rightarrow> nat list \<Rightarrow> py_error + real list" where
  "choice_weights tf a [] = Inr []"
| "choice_weights tf a (tech # ts) =
     (case tf tech of
        None \<Rightarrow> Inl KeyError
      | Some c \<Rightarrow>
          (case py_pow c a of
             Inl e \<Rightarrow> Inl e
           | Inr w \<Rightarrow>
               (case choice_weights tf a ts of
                  Inl e \<Rightarrow> Inl e
                | Inr ws \<Rightarrow> Inr (w # ws))))"

text \<open>The weights \<open>choose\<close> computes for the agent at position \<open>i\<close>.\<close>

definition neighbor_weights :: "simulation \<Rightarrow> nat \<Rightarrow> py_error + real list" where
  "neighbor_weights S i =
     (let A = agents_list S ! i;
          tech_list = technologies_list S
      in case count_neighbors (dict_const tech_list 0) (get_neighbors S A) of
           Inl e \<Rightarrow> Inl e
         | Inr tf \<Rightarrow> choice_weights tf (agent.choice_function_exponent A) tech_list)"

text \<open>\<open>np.asarray(tech_probability) / np.sum(tech_probability)\<close>.\<close>

definition normalize :: "real list \<Rightarrow> real list" where
  "normalize ws = map (\<lambda>w. w / sum_list ws) ws"

text \<open>
  \<open>Agent.choose\<close> (named \<open>agent_choose\<close>, as \<open>choose\<close> is the binomial coefficient
  of the library) for the agent at position \<open>i\<close>, with \<open>pos\<close> draws of the generator
  taken so far. The result is the pair the method returns, the simulation with the
  agent updated, and the new number of draws taken.
\<close>

definition agent_choose ::
  "(nat \<Rightarrow> real) \<Rightarrow> simulation \<Rightarrow> nat \<Rightarrow> nat \<Rightarrow>
     py_error + ((nat option \<times> nat option) \<times> simulation \<times> nat)" where
  "agent_choose rs S pos i =
     (case neighbor_weights S i of
        Inl e \<Rightarrow> Inl e
      | Inr tech_probability \<Rightarrow>
          if sum_list tech_probability > 0
          then
            (let A = agents_list S ! i;
                 old_tech = technology A
             in case np_random_choice_p (technologies_list S) (normalize tech_probability) (rs pos) of
                  Inl e \<Rightarrow> Inl e
                | Inr new \<Rightarrow>
                    Inr ((old_tech, Some new),
                         S\<lparr>agents_list := (agents_list S)[i := A\<lparr>technology := Some new\<rparr>]\<rparr>,
                         Suc pos))
          else Inr ((None, None), S, pos))"

subsection \<open>Simulation: the constructor\<close>

text \<open>
  The inner seeding loop: \<open>j\<close> times, pop the last early adopter and set its
  technology. \<open>pop\<close> on the empty list is \<open>IndexError\<close>.
\<close>

fun seed_technology :: "nat list \<Rightarrow> agent list \<Rightarrow> nat \<Rightarrow> nat \<Rightarrow> py_error + (nat list \<times> agent list)" where
  "seed_technology early as tech 0 = Inr (early, as)"
| "seed_technology early as tech (Suc j) =
     (if early = [] then Inl IndexError
      else seed_technology (butlast early)
             (as[last early := set_technology (as ! last early) tech]) tech j)"

text \<open>
  The outer seeding loop over \<open>range(n_technologies)\<close>: seed technology
  \<open>technologies_list[i]\<close>, then \<open>tech_frequency[i] += n_initial_adopters\<close>. The
  list is read inside the inner loop, so an index outside it is an \<open>IndexError\<close> only
  when the inner loop runs at all.
\<close>

fun seed_all ::
  "nat list \<Rightarrow> int \<Rightarrow> nat list \<Rightarrow> agent list \<Rightarrow> (nat \<rightharpoonup> int) \<Rightarrow> nat list \<Rightarrow>
     py_error + (agent list \<times> (nat \<rightharpoonup> int))" where
  "seed_all techs n_init early as tf [] = Inr (as, tf)"
| "seed_all techs n_init early as tf (i # rest) =
     (if length techs \<le> i \<and> 0 < n_init then Inl IndexError
      else case seed_technology early as (techs ! i) (nat n_init) of
             Inl e \<Rightarrow> Inl e
           | Inr (early', as') \<Rightarrow>
               (case dict_add tf i n_init of
                  Inl e \<Rightarrow> Inl e
                | Inr tf' \<Rightarrow> seed_all techs n_init early' as' tf' rest))"

text \<open>The dictionary comprehension that records the initial shares.\<close>

fun initial_history ::
  "(nat \<rightharpoonup> int) \<Rightarrow> int \<Rightarrow> (nat \<rightharpoonup> real list) \<Rightarrow> nat list \<Rightarrow>
     py_error + (nat \<rightharpoonup> real list)" where
  "initial_history tf n h [] = Inr h"
| "initial_history tf n h (tech # ts) =
     (case tf tech of
        None \<Rightarrow> Inl KeyError
      | Some c \<Rightarrow>
          (case py_truediv c n of
             Inl e \<Rightarrow> Inl e
           | Inr x \<Rightarrow> initial_history tf n (h(tech \<mapsto> [x])) ts))"

definition known_network_type :: "string \<Rightarrow> bool" where
  "known_network_type nt \<longleftrightarrow>
     nt = ''Erdos-Renyi'' \<or> nt = ''Barabasi-Albert'' \<or> nt = ''Watts-Strogatz''"

text \<open>
  \<open>Simulation.__init__\<close>. \<open>net\<close> is the network the generator returned for \<open>n_agents\<close>
  nodes and \<open>sample\<close> the positions of the agents the generator drew as early adopters.
\<close>

definition Simulation :: "config \<Rightarrow> nat list list \<Rightarrow> nat list \<Rightarrow> py_error + simulation" where
  "Simulation cfg net sample =
     (let techs = py_range (n_technologies cfg);
          tf = dict_const techs (0::int)
      in if \<not> known_network_type (network_type cfg) then Inl AssertionError
         else
           let as = map (\<lambda>i. Agent i (config.choice_function_exponent cfg)) [0..<length net];
               n_early_adopters = n_technologies cfg * n_initial_adopters cfg
           in case np_random_choice_sample (length as) n_early_adopters sample of
                Inl e \<Rightarrow> Inl e
              | Inr early_adopters \<Rightarrow>
                  (case seed_all techs (n_initial_adopters cfg) early_adopters as tf
                          (py_range (n_technologies cfg)) of
                     Inl e \<Rightarrow> Inl e
                   | Inr (as', tf') \<Rightarrow>
                       (case initial_history tf' (n_agents cfg) Map.empty techs of
                          Inl e \<Rightarrow> Inl e
                        | Inr h \<Rightarrow>
                            Inr \<lparr>n_agents = n_agents cfg,
                                 n_technologies = n_technologies cfg,
                                 n_initial_adopters = n_initial_adopters cfg,
                                 reconsideration_probability = reconsideration_probability cfg,
                                 choice_function_exponent = config.choice_function_exponent cfg,
                                 network_type = network_type cfg,
                                 t_max = t_max cfg,
                                 technologies_list = techs,
                                 tech_frequency = tf',
                                 G = net,
                                 agents_list = as',
                                 history_tech_frequency = h,
                                 history_t = [0]\<rparr>)))"

subsection \<open>Simulation: the run\<close>

text \<open>
  The recording loop \<open>for i in range(n_technologies)\<close>:
  \<open>history_tech_frequency[i].append(tech_frequency[i] / n_agents)\<close>.
\<close>

fun record_state :: "simulation \<Rightarrow> nat list \<Rightarrow> py_error + simulation" where
  "record_state S [] = Inr S"
| "record_state S (i # rest) =
     (case history_tech_frequency S i of
        None \<Rightarrow> Inl KeyError
      | Some h \<Rightarrow>
          (case tech_frequency S i of
             None \<Rightarrow> Inl KeyError
           | Some c \<Rightarrow>
               (case py_truediv c (n_agents S) of
                  Inl e \<Rightarrow> Inl e
                | Inr x \<Rightarrow>
                    record_state
                      (S\<lparr>history_tech_frequency := (history_tech_frequency S)(i \<mapsto> h @ [x])\<rparr>) rest)))"

text \<open>
  The update of the counters after \<open>old, new = A.choose()\<close>:
  \<open>tech_frequency[old] -= 1\<close> if \<open>old\<close> is not \<open>None\<close>, then
  \<open>tech_frequency[new] += 1\<close> if \<open>new\<close> is not \<open>None\<close>.
\<close>

definition update_frequency ::
  "(nat \<rightharpoonup> int) \<Rightarrow> nat option \<Rightarrow> nat option \<Rightarrow> py_error + (nat \<rightharpoonup> int)" where
  "update_frequency tf old new =
     (case (case old of None \<Rightarrow> Inr tf | Some t \<Rightarrow> dict_add tf t (- 1)) of
        Inl e \<Rightarrow> Inl e
      | Inr tf1 \<Rightarrow> (case new of None \<Rightarrow> Inr tf1 | Some t \<Rightarrow> dict_add tf1 t 1))"

text \<open>
  The part of one iteration before the recording: select an agent; it chooses if it
  has no technology, or if a fresh uniform number lies below
  \<open>reconsideration_probability\<close> (the number is drawn only when the agent has a
  technology).
\<close>

definition activate :: "(nat \<Rightarrow> real) \<Rightarrow> simulation \<times> nat \<Rightarrow> py_error + simulation \<times> nat" where
  "activate rs Sp =
     (let S = fst Sp; pos = snd Sp
      in case np_random_choice (length (agents_list S)) (rs pos) of
           Inl e \<Rightarrow> Inl e
         | Inr i \<Rightarrow>
             (let tech = get_technology (agents_list S ! i);
                  pos1 = (if tech = None then Suc pos else Suc (Suc pos))
              in if tech = None \<or> rs (Suc pos) < reconsideration_probability S
                 then
                   (case agent_choose rs S pos1 i of
                      Inl e \<Rightarrow> Inl e
                    | Inr ((old, new), S', pos') \<Rightarrow>
                        (case update_frequency (tech_frequency S') old new of
                           Inl e \<Rightarrow> Inl e
                         | Inr tf \<Rightarrow> Inr (S'\<lparr>tech_frequency := tf\<rparr>, pos')))
                 else Inr (S, pos1)))"

text \<open>One iteration of the time loop, for the time value \<open>t\<close>.\<close>

definition step :: "(nat \<Rightarrow> real) \<Rightarrow> simulation \<times> nat \<Rightarrow> int \<Rightarrow> py_error + simulation \<times> nat" where
  "step rs Sp t =
     (case activate rs Sp of
        Inl e \<Rightarrow> Inl e
      | Inr (S1, pos1) \<Rightarrow>
          (case record_state S1 (py_range (n_technologies S1)) of
             Inl e \<Rightarrow> Inl e
           | Inr S2 \<Rightarrow> Inr (S2\<lparr>history_t := history_t S2 @ [t]\<rparr>, pos1)))"

text \<open>The time loop over a list of time values.\<close>

fun steps :: "(nat \<Rightarrow> real) \<Rightarrow> simulation \<times> nat \<Rightarrow> int list \<Rightarrow> py_error + simulation \<times> nat" where
  "steps rs Sp [] = Inr Sp"
| "steps rs Sp (t # ts) =
     (case step rs Sp t of
        Inl e \<Rightarrow> Inl e
      | Inr Sp' \<Rightarrow> steps rs Sp' ts)"

text \<open>\<open>range(0, t_max + 1)\<close>.\<close>

definition time_range :: "int \<Rightarrow> int list" where
  "time_range tmax = map int (py_range (tmax + 1))"

text \<open>\<open>Simulation.run\<close>, started with \<open>pos\<close> draws of the generator taken.\<close>

definition run :: "(nat \<Rightarrow> real) \<Rightarrow> simulation \<Rightarrow> nat \<Rightarrow> py_error + simulation \<times> nat" where
  "run rs S pos = steps rs (S, pos) (time_range (t_max S))"

subsection \<open>The statistics helper\<close>

text \<open>Indexing \<open>xs[i]\<close>; a negative index counts from the end.\<close>

definition py_index :: "'a list \<Rightarrow> int \<Rightarrow> py_error + 'a" where
  "py_index xs i =
     (if 0 \<le> i \<and> i < int (length xs) then Inr (xs ! nat i)
      else if i < 0 \<and> - int (length xs) \<le> i then Inr (xs ! nat (int (length xs) + i))
      else Inl IndexError)"

text \<open>
  The arrays live in a store, a list of arrays addressed by position. \<open>np.sort(a)\<close>
  allocates a new array holding the sorted elements of the array at address \<open>a\<close> and
  returns its address; the array at \<open>a\<close> is not written.
\<close>

type_synonym store = "real list list"

definition np_sort :: "store \<Rightarrow> nat \<Rightarrow> store \<times> nat" where
  "np_sort st a = (st @ [sort (st ! a)], length st)"

text \<open>
  \<open>largest_and_second_largest_MS\<close> on the store: the local name \<open>market_share\<close> is
  rebound to the address \<open>np.sort\<close> returns, and the two elements are read there.
\<close>

definition largest_and_second_largest_MS_store ::
  "store \<Rightarrow> nat \<Rightarrow> store \<times> (py_error + real \<times> real)" where
  "largest_and_second_largest_MS_store st a =
     (let st' = fst (np_sort st a);
          market_share = snd (np_sort st a)
      in (st',
          case py_index (st' ! market_share) (- 1) of
            Inl e \<Rightarrow> Inl e
          | Inr x \<Rightarrow>
              (case py_index (st' ! market_share) (- 2) of
                 Inl e \<Rightarrow> Inl e
               | Inr y \<Rightarrow> Inr (x, y))))"

text \<open>The value the function returns for the list \<open>ms\<close>.\<close>

definition largest_and_second_largest_MS :: "real list \<Rightarrow> py_error + real \<times> real" where
  "largest_and_second_largest_MS ms = snd (largest_and_second_largest_MS_store [ms] 0)"

section \<open>Predicates and example inputs of the statements\<close>

subsection \<open>Counting adopters\<close>

text \<open>The number of agents in the list that hold technology \<open>t\<close>.\<close>

definition count_tech :: "agent list \<Rightarrow> nat \<Rightarrow> nat" where
  "count_tech as t = length (filter (\<lambda>A. technology A = Some t) as)"


subsection \<open>Valid inputs\<close>

text \<open>
  A valid configuration in the sense of the specification's interface section, with a
  non-negative exponent.
\<close>

definition valid_config :: "config \<Rightarrow> bool" where
  "valid_config cfg \<longleftrightarrow>
     0 < n_agents cfg
     \<and> 2 \<le> n_technologies cfg
     \<and> 1 \<le> n_initial_adopters cfg
     \<and> n_technologies cfg * n_initial_adopters cfg \<le> n_agents cfg
     \<and> 0 \<le> reconsideration_probability cfg \<and> reconsideration_probability cfg \<le> 1
     \<and> 0 \<le> config.choice_function_exponent cfg
     \<and> known_network_type (network_type cfg)
     \<and> 0 \<le> t_max cfg"

text \<open>
  What the network generator guarantees: one node per agent, and every neighbour of a
  node is a node.
\<close>

definition valid_network :: "config \<Rightarrow> nat list list \<Rightarrow> bool" where
  "valid_network cfg net \<longleftrightarrow>
     length net = nat (n_agents cfg)
     \<and> (\<forall>ns \<in> set net. \<forall>N \<in> set ns. N < length net)"

text \<open>
  What sampling without replacement guarantees: the requested number of distinct
  positions of the agents list.
\<close>

definition valid_sample :: "config \<Rightarrow> nat list list \<Rightarrow> nat list \<Rightarrow> bool" where
  "valid_sample cfg net sample \<longleftrightarrow>
     length sample = nat (n_technologies cfg * n_initial_adopters cfg)
     \<and> distinct sample
     \<and> (\<forall>e \<in> set sample. e < length net)"

text \<open>What the generator guarantees for a uniform number: it lies in \<open>[0, 1)\<close>.\<close>

definition valid_draws :: "(nat \<Rightarrow> real) \<Rightarrow> bool" where
  "valid_draws rs \<longleftrightarrow> (\<forall>k. 0 \<le> rs k \<and> rs k < 1)"

subsection \<open>Invariants of a simulation\<close>

text \<open>
  The structural invariant: the technologies are \<open>range(n_technologies)\<close>; there is one
  agent per node, numbered by its position, with a non-negative exponent; every
  technology held is a known one; every counter is the number of agents that hold the
  technology; every technology has a history.
\<close>

definition sim_inv :: "simulation \<Rightarrow> bool" where
  "sim_inv S \<longleftrightarrow>
     technologies_list S = py_range (n_technologies S)
     \<and> 0 < n_agents S
     \<and> length (agents_list S) = nat (n_agents S)
     \<and> length (G S) = length (agents_list S)
     \<and> (\<forall>ns \<in> set (G S). \<forall>N \<in> set ns. N < length (agents_list S))
     \<and> (\<forall>i < length (agents_list S).
           id_number (agents_list S ! i) = i
           \<and> 0 \<le> agent.choice_function_exponent (agents_list S ! i))
     \<and> (\<forall>A \<in> set (agents_list S). \<forall>t. technology A = Some t \<longrightarrow> t < nat (n_technologies S))
     \<and> (\<forall>t < nat (n_technologies S).
           tech_frequency S t = Some (int (count_tech (agents_list S) t)))
     \<and> (\<forall>t < nat (n_technologies S). \<exists>h. history_tech_frequency S t = Some h)"

text \<open>
  The invariant of the histories: only known technologies have one, each is as long as
  the time sequence, and every recorded share lies in \<open>[0, 1]\<close>.
\<close>

definition hist_inv :: "simulation \<Rightarrow> bool" where
  "hist_inv S \<longleftrightarrow>
     (\<forall>tech h. history_tech_frequency S tech = Some h \<longrightarrow>
        tech < nat (n_technologies S)
        \<and> length h = length (history_t S)
        \<and> (\<forall>x \<in> set h. 0 \<le> x \<and> x \<le> 1))"

subsection \<open>Example inputs\<close>

text \<open>Sequences of draws.\<close>

definition zero_draws :: "nat \<Rightarrow> real" where
  "zero_draws i = 0"

definition half_draws :: "nat \<Rightarrow> real" where
  "half_draws i = 1 / 2"

definition quarter_draws :: "nat \<Rightarrow> real" where
  "quarter_draws i = 1 / 4"


text \<open>
  Four agents, two technologies, one initial adopter each; the exponent, the
  reconsideration probability and the horizon are left open.
\<close>

definition example_config :: "real \<Rightarrow> real \<Rightarrow> int \<Rightarrow> config" where
  "example_config a p T =
     \<lparr>n_agents = 4, n_technologies = 2, n_initial_adopters = 1,
      reconsideration_probability = p, choice_function_exponent = a,
      network_type = ''Erdos-Renyi'', t_max = T\<rparr>"


text \<open>Two networks on four nodes: two separate pairs, and a star with an isolated node.\<close>

definition net_pairs :: "nat list list" where
  "net_pairs = [[1], [0], [3], [2]]"

definition net_star :: "nat list list" where
  "net_star = [[1, 2], [0], [0], []]"


definition sim_star :: "config \<Rightarrow> simulation" where
  "sim_star cfg = projr (Simulation cfg net_star [3, 1])"

section \<open>Properties of the statistics helper\<close>

lemma largest_and_second_largest_MS_sorted:
  "largest_and_second_largest_MS ms =
     (if 2 \<le> length ms
      then Inr (sort ms ! (length ms - 1), sort ms ! (length ms - 2))
      else Inl IndexError)"
proof -
  have a: "nat (int (length ms) - 1) = length ms - 1"
    by simp
  have b: "nat (int (length ms) - 2) = length ms - 2"
    by simp
  show ?thesis
    by (auto simp: largest_and_second_largest_MS_def largest_and_second_largest_MS_store_def
        np_sort_def py_index_def Let_def a b)
qed

lemma sorted_top_is_Max:
  fixes s :: "real list"
  assumes "sorted s" and "s \<noteq> []"
  shows "s ! (length s - 1) = Max (set s)"
proof (rule sym, rule Max_eqI)
  show "finite (set s)"
    by simp
  show "s ! (length s - 1) \<in> set s"
    using assms(2) by simp
  fix y
  assume "y \<in> set s"
  then obtain i where i: "i < length s" "s ! i = y"
    by (auto simp: in_set_conv_nth)
  then have "s ! i \<le> s ! (length s - 1)"
    using assms(1) by (intro sorted_nth_mono) auto
  with i show "y \<le> s ! (length s - 1)"
    by simp
qed

lemma sorted_tie_at_top:
  fixes s :: "real list"
  assumes srt: "sorted s" and len: "2 \<le> length s"
    and tie: "2 \<le> count_list s (s ! (length s - 1))"
  shows "s ! (length s - 2) = s ! (length s - 1)"
proof -
  let ?m = "s ! (length s - 1)"
  have ne: "s \<noteq> []"
    using len by auto
  have split: "s = butlast s @ [?m]"
    using ne by (metis append_butlast_last_id last_conv_nth)
  have "count_list s ?m = count_list (butlast s @ [?m]) ?m"
    using split by simp
  then have "count_list s ?m = count_list (butlast s) ?m + 1"
    by simp
  with tie have "0 < count_list (butlast s) ?m"
    by simp
  then have "?m \<in> set (butlast s)"
    by (metis count_list_0_iff less_numeral_extra(3))
  then obtain i where i: "i < length (butlast s)" "butlast s ! i = ?m"
    by (auto simp: in_set_conv_nth)
  then have i': "i < length s - 1" "s ! i = ?m"
    by (simp_all add: nth_butlast)
  have "s ! i \<le> s ! (length s - 2)"
    using srt i'(1) len by (intro sorted_nth_mono) auto
  moreover have "s ! (length s - 2) \<le> ?m"
    using srt len by (intro sorted_nth_mono) auto
  ultimately show ?thesis
    using i'(2) by simp
qed

text \<open>
  C4. For a list of at least two shares the helper returns the two highest order
  statistics of the sorted input: the first component is the maximum, the second lies
  between the minimum and the first, and if the maximum occurs twice the two components
  are equal. For a list of fewer than two shares it raises \<open>IndexError\<close>.
\<close>

theorem largest_and_second_largest_MS_spec:
  "(2 \<le> length ms \<longrightarrow>
      (\<exists>x y. largest_and_second_largest_MS ms = Inr (x, y)
         \<and> x = sort ms ! (length ms - 1) \<and> y = sort ms ! (length ms - 2)
         \<and> x = Max (set ms) \<and> y \<le> x \<and> Min (set ms) \<le> y
         \<and> (2 \<le> count_list ms (Max (set ms)) \<longrightarrow> x = y)))
   \<and> (length ms < 2 \<longrightarrow> largest_and_second_largest_MS ms = Inl IndexError)"
proof (intro conjI impI)
  assume "length ms < 2"
  then show "largest_and_second_largest_MS ms = Inl IndexError"
    by (simp add: largest_and_second_largest_MS_sorted)
next
  assume len: "2 \<le> length ms"
  let ?s = "sort ms"
  let ?x = "?s ! (length ms - 1)"
  let ?y = "?s ! (length ms - 2)"
  have ls: "length ?s = length ms" and ss: "set ?s = set ms" and srt: "sorted ?s"
    by simp_all
  have "length ?s \<noteq> 0"
    using len by auto
  then have ne: "?s \<noteq> []"
    by (metis list.size(3))
  have xmax: "?x = Max (set ms)"
    using sorted_top_is_Max [OF srt ne] by (simp only: ls ss)
  have yx: "?y \<le> ?x"
    using srt len by (intro sorted_nth_mono) auto
  have "?y \<in> set ms"
    using len by (metis ss ls nth_mem diff_less less_le_trans zero_less_numeral)
  then have ymin: "Min (set ms) \<le> ?y"
    by simp
  have cnt: "count_list ?s v = count_list ms v" for v
    by (metis count_mset mset_sort)
  have tie: "?x = ?y" if "2 \<le> count_list ms (Max (set ms))"
  proof -
    have "2 \<le> count_list ?s ?x"
      using that by (simp only: cnt xmax)
    then have "2 \<le> count_list ?s (?s ! (length ?s - 1))"
      by (simp only: ls)
    from sorted_tie_at_top [OF srt _ this] len show ?thesis
      by simp
  qed
  show "\<exists>x y. largest_and_second_largest_MS ms = Inr (x, y)
         \<and> x = sort ms ! (length ms - 1) \<and> y = sort ms ! (length ms - 2)
         \<and> x = Max (set ms) \<and> y \<le> x \<and> Min (set ms) \<le> y
         \<and> (2 \<le> count_list ms (Max (set ms)) \<longrightarrow> x = y)"
    using len xmax yx ymin tie by (simp add: largest_and_second_largest_MS_sorted)
qed

theorem largest_and_second_largest_MS_spec_witness:
  "2 \<le> length [1/5, 1/2, 3/10 :: real]
   \<and> largest_and_second_largest_MS [1/5, 1/2, 3/10] = Inr (1/2, 3/10)
   \<and> 2 \<le> count_list [2/5, 2/5, 1/5 :: real] (Max (set [2/5, 2/5, 1/5]))
   \<and> largest_and_second_largest_MS [2/5, 2/5, 1/5] = Inr (2/5, 2/5)
   \<and> length [2/5 :: real] < 2
   \<and> largest_and_second_largest_MS [2/5] = Inl IndexError"
proof -
  have s1: "sort [1/5, 1/2, 3/10 :: real] = [1/5, 3/10, 1/2]"
    by simp
  have s2: "sort [2/5, 2/5, 1/5 :: real] = [1/5, 2/5, 2/5]"
    by simp
  have n: "(2::nat) = Suc (Suc 0)" "(3::nat) - 1 = Suc (Suc 0)" "(3::nat) - 2 = Suc 0"
    by simp_all
  have c: "2 \<le> count_list [2/5, 2/5, 1/5 :: real] (Max (set [2/5, 2/5, 1/5]))"
    by simp
  from largest_and_second_largest_MS_spec [of "[1/5, 1/2, 3/10]"]
  have a: "largest_and_second_largest_MS [1/5, 1/2, 3/10] = Inr (1/2, 3/10)"
    by (auto simp: s1)
  from largest_and_second_largest_MS_spec [of "[2/5, 2/5, 1/5]"] c
  have b: "largest_and_second_largest_MS [2/5, 2/5, 1/5] = Inr (2/5, 2/5)"
    by (auto simp: s2)
  from largest_and_second_largest_MS_spec [of "[2/5]"]
  have d: "largest_and_second_largest_MS [2/5] = Inl IndexError"
    by simp
  show ?thesis
    using a b c d by simp
qed

text \<open>
  C10. The helper leaves its input unchanged: the array at the address passed in, and
  every other array of the store, holds after the call what it held before; the value
  returned is the one computed from that array.
\<close>

theorem largest_and_second_largest_MS_frame:
  "a < length st \<Longrightarrow>
     (\<forall>b < length st. fst (largest_and_second_largest_MS_store st a) ! b = st ! b)
     \<and> snd (largest_and_second_largest_MS_store st a) = largest_and_second_largest_MS (st ! a)"
  by (simp add: largest_and_second_largest_MS_def largest_and_second_largest_MS_store_def
      np_sort_def Let_def nth_append cong: sum.case_cong)

theorem largest_and_second_largest_MS_frame_witness:
  "(0::nat) < length [[1/5, 1/2, 3/10 :: real]]
   \<and> fst (largest_and_second_largest_MS_store [[1/5, 1/2, 3/10]] 0) ! 0 = [1/5, 1/2, 3/10]"
  using largest_and_second_largest_MS_frame [of 0 "[[1/5, 1/2, 3/10]]"] by simp

section \<open>The choice of an agent\<close>

lemma dict_const_apply:
  "dict_const keys v k = (if k \<in> set keys then Some v else None)"
  by (induction keys) (auto simp: dict_const_def)


lemma count_neighbors_dom:
  "\<forall>A \<in> set as. \<forall>t. technology A = Some t \<longrightarrow> t \<in> dom tf \<Longrightarrow>
     \<exists>tf'. count_neighbors tf as = Inr tf' \<and> dom tf' = dom tf"
proof (induction as arbitrary: tf)
  case Nil
  then show ?case by simp
next
  case (Cons A as)
  show ?case
  proof (cases "technology A")
    case None
    with Cons show ?thesis
      by (simp add: get_technology_def)
  next
    case (Some t)
    with Cons.prems obtain c where c: "tf t = Some c"
      by auto
    have "\<forall>B \<in> set as. \<forall>u. technology B = Some u \<longrightarrow> u \<in> dom (tf(t \<mapsto> c + 1))"
      using Cons.prems by auto
    from Cons.IH [OF this] obtain tf' where
      "count_neighbors (tf(t \<mapsto> c + 1)) as = Inr tf'" "dom tf' = dom (tf(t \<mapsto> c + 1))"
      by blast
    with Some c show ?thesis
      by (auto simp: get_technology_def)
  qed
qed




lemma choice_weights_length:
  "choice_weights tf a ts = Inr ws \<Longrightarrow> length ws = length ts"
  by (induction ts arbitrary: ws) (auto split: option.splits sum.splits)





lemmas construct_simps =
  Simulation_def example_config_def py_range_def dict_const_def known_network_type_def
  np_random_choice_sample_def Let_def upt_rec Agent_def set_technology_def dict_add_def
  py_truediv_def numeral_2_eq_2






section \<open>The invariant along a run\<close>

lemma sim_inv_techs: "sim_inv S \<Longrightarrow> technologies_list S = [0..<nat (n_technologies S)]"
  unfolding sim_inv_def py_range_def by blast

lemma sim_inv_agents: "sim_inv S \<Longrightarrow> 0 < n_agents S \<and> length (agents_list S) = nat (n_agents S)"
  unfolding sim_inv_def by blast

lemma sim_inv_graph:
  "sim_inv S \<Longrightarrow> i < length (agents_list S) \<Longrightarrow> N \<in> set (G S ! i) \<Longrightarrow>
     N < length (agents_list S)"
  unfolding sim_inv_def by (metis nth_mem)

lemma sim_inv_agent:
  "sim_inv S \<Longrightarrow> i < length (agents_list S) \<Longrightarrow>
     id_number (agents_list S ! i) = i \<and> 0 \<le> agent.choice_function_exponent (agents_list S ! i)"
  unfolding sim_inv_def by blast

lemma sim_inv_tech_range:
  "sim_inv S \<Longrightarrow> A \<in> set (agents_list S) \<Longrightarrow> technology A = Some t \<Longrightarrow>
     t < nat (n_technologies S)"
  unfolding sim_inv_def by blast

lemma sim_inv_counter:
  "sim_inv S \<Longrightarrow> t < nat (n_technologies S) \<Longrightarrow>
     tech_frequency S t = Some (int (count_tech (agents_list S) t))"
  unfolding sim_inv_def by blast

lemma sim_inv_history:
  "sim_inv S \<Longrightarrow> t < nat (n_technologies S) \<Longrightarrow> \<exists>h. history_tech_frequency S t = Some h"
  unfolding sim_inv_def by blast

lemma count_tech_update:
  "i < length as \<Longrightarrow>
     count_tech (as[i := B]) t + (if technology (as ! i) = Some t then 1 else 0)
       = count_tech as t + (if technology B = Some t then 1 else 0)"
proof (induction as arbitrary: i)
  case Nil
  then show ?case by simp
next
  case (Cons A as)
  show ?case
  proof (cases i)
    case 0
    then show ?thesis by (simp add: count_tech_def)
  next
    case (Suc j)
    with Cons.prems have "j < length as" by simp
    from Cons.IH [OF this] Suc show ?thesis
      by (simp add: count_tech_def)
  qed
qed

lemma count_tech_le_length: "count_tech as t \<le> length as"
  by (simp add: count_tech_def)


lemma np_random_choice_range:
  assumes "0 < n" "0 \<le> u" "u < 1"
  shows "\<exists>i < n. np_random_choice n u = Inr i"
proof -
  have "u * real n < real n"
    using assms by simp
  then have "\<lfloor>u * real n\<rfloor> < int n"
    by (simp add: floor_less_iff)
  moreover have "0 \<le> \<lfloor>u * real n\<rfloor>"
    using assms by simp
  ultimately have "nat \<lfloor>u * real n\<rfloor> < n"
    by linarith
  then show ?thesis
    using assms by (simp add: np_random_choice_def)
qed

lemma length_cumsum: "length (cumsum acc xs) = length xs"
  by (induction xs arbitrary: acc) auto

lemma total_in_cumsum: "xs \<noteq> [] \<Longrightarrow> acc + sum_list xs \<in> set (cumsum acc xs)"
proof (induction xs arbitrary: acc)
  case Nil
  then show ?case by simp
next
  case (Cons x xs)
  show ?case
  proof (cases "xs = []")
    case True
    then show ?thesis by simp
  next
    case False
    from Cons.IH [OF this, of "acc + x"] show ?thesis
      by (simp add: add.assoc)
  qed
qed

lemma sum_list_normalize:
  assumes "sum_list ws \<noteq> 0"
  shows "sum_list (normalize ws) = 1"
proof -
  have "sum_list (map (\<lambda>w. w / c) ws) = sum_list ws / c" for c :: real
    by (induction ws) (auto simp: add_divide_distrib)
  then show ?thesis
    using assms by (simp add: normalize_def)
qed

lemma np_random_choice_p_range:
  assumes "0 < sum_list ws" "u < 1" "length a = length ws"
  shows "\<exists>idx < length a. np_random_choice_p a (normalize ws) u = Inr (a ! idx)"
proof -
  let ?cdf = "cumsum 0 (normalize ws)"
  have ne: "normalize ws \<noteq> []"
    using assms(1) by (auto simp: normalize_def)
  have "0 + sum_list (normalize ws) \<in> set ?cdf"
    using ne by (rule total_in_cumsum)
  then have "1 \<in> set ?cdf"
    using assms(1) by (simp add: sum_list_normalize)
  moreover have "\<not> (1 \<le> u)"
    using assms(2) by simp
  ultimately have "length (filter (\<lambda>c. c \<le> u) ?cdf) < length ?cdf"
    by (rule length_filter_less)
  then have "length (filter (\<lambda>c. c \<le> u) ?cdf) < length a"
    by (simp add: length_cumsum normalize_def assms(3))
  then show ?thesis
    by (auto simp: np_random_choice_p_def Let_def)
qed

lemma choice_weights_ok:
  "0 \<le> a \<Longrightarrow> set ts \<subseteq> dom tf \<Longrightarrow>
     \<exists>ws. choice_weights tf a ts = Inr ws \<and> length ws = length ts"
proof (induction ts)
  case Nil
  then show ?case by simp
next
  case (Cons t ts)
  then obtain c where c: "tf t = Some c"
    by auto
  from Cons obtain ws where ws: "choice_weights tf a ts = Inr ws" "length ws = length ts"
    by auto
  from \<open>0 \<le> a\<close> have "\<exists>w. py_pow c a = Inr w"
    by (simp add: py_pow_def)
  then obtain w where "py_pow c a = Inr w" ..
  with c ws show ?case
    by simp
qed

lemma neighbor_weights_ok:
  assumes "sim_inv S" "i < length (agents_list S)"
  shows "\<exists>ws. neighbor_weights S i = Inr ws \<and> length ws = length (technologies_list S)"
proof -
  let ?A = "agents_list S ! i"
  let ?ts = "technologies_list S"
  have ts: "set ?ts = {..< nat (n_technologies S)}"
    using sim_inv_techs [OF assms(1)] by auto
  have d: "dom (dict_const ?ts (0::nat)) = set ?ts"
    by (auto simp: dict_const_apply dom_def)
  have idn: "id_number ?A = i"
    using sim_inv_agent [OF assms] by simp
  have "\<forall>B \<in> set (get_neighbors S ?A). \<forall>t. technology B = Some t \<longrightarrow> t \<in> dom (dict_const ?ts (0::nat))"
  proof (intro ballI allI impI)
    fix B t
    assume "B \<in> set (get_neighbors S ?A)" and t: "technology B = Some t"
    then obtain N where N: "N \<in> set (G S ! i)" "B = agents_list S ! N"
      by (auto simp: get_neighbors_def idn)
    from sim_inv_graph [OF assms N(1)] N(2) have "B \<in> set (agents_list S)"
      by simp
    from sim_inv_tech_range [OF assms(1) this t] show "t \<in> dom (dict_const ?ts (0::nat))"
      by (simp only: d ts) simp
  qed
  from count_neighbors_dom [OF this] obtain tf where
    tf: "count_neighbors (dict_const ?ts 0) (get_neighbors S ?A) = Inr tf" "dom tf = set ?ts"
    using d by auto
  have "0 \<le> agent.choice_function_exponent ?A"
    using sim_inv_agent [OF assms] by simp
  from choice_weights_ok [OF this, of ?ts tf] tf(2) obtain ws where
    "choice_weights tf (agent.choice_function_exponent ?A) ?ts = Inr ws" "length ws = length ?ts"
    by auto
  with tf(1) show ?thesis
    by (simp add: neighbor_weights_def Let_def)
qed

lemma agent_choose_cases:
  assumes "sim_inv S" "i < length (agents_list S)" "rs pos < 1"
  shows "agent_choose rs S pos i = Inr ((None, None), S, pos)
     \<or> (\<exists>new < nat (n_technologies S).
          agent_choose rs S pos i =
            Inr ((technology (agents_list S ! i), Some new),
                 S\<lparr>agents_list := (agents_list S)[i := (agents_list S ! i)\<lparr>technology := Some new\<rparr>]\<rparr>,
                 Suc pos))"
proof -
  from neighbor_weights_ok [OF assms(1,2)] obtain ws where
    ws: "neighbor_weights S i = Inr ws" "length ws = length (technologies_list S)"
    by auto
  show ?thesis
  proof (cases "0 < sum_list ws")
    case False
    with ws show ?thesis
      by (simp add: agent_choose_def)
  next
    case True
    from np_random_choice_p_range [OF True assms(3), of "technologies_list S"] ws(2)
    obtain idx where idx: "idx < length (technologies_list S)"
      "np_random_choice_p (technologies_list S) (normalize ws) (rs pos) = Inr (technologies_list S ! idx)"
      by auto
    have tl: "technologies_list S = [0..<nat (n_technologies S)]"
      using assms(1) by (rule sim_inv_techs)
    have "technologies_list S ! idx = idx" "idx < nat (n_technologies S)"
      using idx(1) by (simp_all add: tl)
    with idx(2) ws(1) True show ?thesis
      by (simp add: agent_choose_def Let_def)
  qed
qed

lemma sim_inv_structure:
  "sim_inv S \<Longrightarrow>
     technologies_list S = py_range (n_technologies S)
     \<and> length (G S) = length (agents_list S)
     \<and> (\<forall>ns \<in> set (G S). \<forall>N \<in> set ns. N < length (agents_list S))"
  unfolding sim_inv_def by blast

lemma update_frequency_inv:
  assumes inv: "sim_inv S" and i: "i < length (agents_list S)"
    and new: "new < nat (n_technologies S)"
  shows "\<exists>tf'. update_frequency (tech_frequency S) (technology (agents_list S ! i)) (Some new) = Inr tf'
     \<and> sim_inv (S\<lparr>agents_list := (agents_list S)[i := (agents_list S ! i)\<lparr>technology := Some new\<rparr>],
                 tech_frequency := tf'\<rparr>)"
proof -
  let ?as = "agents_list S"
  let ?B = "(?as ! i)\<lparr>technology := Some new\<rparr>"
  let ?as' = "?as[i := ?B]"
  let ?K = "nat (n_technologies S)"
  let ?tf = "tech_frequency S"
  have cnt: "int (count_tech ?as' t)
      = int (count_tech ?as t) - (if technology (?as ! i) = Some t then 1 else 0)
        + (if new = t then 1 else 0)" for t
    using count_tech_update [OF i, of ?B t] by (simp split: if_splits)
  have tfv: "?tf t = Some (int (count_tech ?as t))" if "t < ?K" for t
    using sim_inv_counter [OF inv that] .
  have old: "o' < ?K" if "technology (?as ! i) = Some o'" for o'
    using sim_inv_tech_range [OF inv _ that] i by simp
  obtain tf' where tf': "update_frequency ?tf (technology (?as ! i)) (Some new) = Inr tf'"
    and tfv': "\<forall>t < ?K. tf' t = Some (int (count_tech ?as' t))"
  proof (cases "technology (?as ! i)")
    case None
    let ?tf' = "?tf(new \<mapsto> int (count_tech ?as new) + 1)"
    have "update_frequency ?tf (technology (?as ! i)) (Some new) = Inr ?tf'"
      using None tfv [OF new] by (simp add: update_frequency_def dict_add_def)
    moreover have "\<forall>t < ?K. ?tf' t = Some (int (count_tech ?as' t))"
      using None tfv by (simp add: cnt)
    ultimately show ?thesis
      using that by blast
  next
    case (Some o')
    let ?tf1 = "?tf(o' \<mapsto> int (count_tech ?as o') + (- 1))"
    have o: "o' < ?K"
      using old [OF Some] .
    have t1: "dict_add ?tf o' (- 1) = Inr ?tf1"
      using tfv [OF o] by (simp add: dict_add_def)
    obtain c where c: "?tf1 new = Some c"
      "c = int (count_tech ?as new) - (if o' = new then 1 else 0)"
      using tfv [OF new] by (cases "o' = new") auto
    let ?tf' = "?tf1(new \<mapsto> c + 1)"
    have "update_frequency ?tf (technology (?as ! i)) (Some new) = Inr ?tf'"
      using Some t1 c(1) by (simp add: update_frequency_def dict_add_def)
    moreover have "\<forall>t < ?K. ?tf' t = Some (int (count_tech ?as' t))"
      using Some tfv c(2) by (auto simp: cnt)
    ultimately show ?thesis
      using that by blast
  qed
  let ?S' = "S\<lparr>agents_list := ?as', tech_frequency := tf'\<rparr>"
  have nth': "?as' ! j = (if j = i then ?B else ?as ! j)" if "j < length ?as" for j
    using that by (simp add: nth_list_update)
  have a1: "technologies_list ?S' = py_range (n_technologies ?S')"
    using sim_inv_structure [OF inv] by simp
  have a2: "0 < n_agents ?S' \<and> length (agents_list ?S') = nat (n_agents ?S')"
    using sim_inv_agents [OF inv] by simp
  have a3: "length (G ?S') = length (agents_list ?S')"
    using sim_inv_structure [OF inv] by simp
  have a4: "\<forall>ns \<in> set (G ?S'). \<forall>N \<in> set ns. N < length (agents_list ?S')"
    using sim_inv_structure [OF inv] by simp
  have a5: "\<forall>j < length (agents_list ?S').
      id_number (agents_list ?S' ! j) = j
      \<and> 0 \<le> agent.choice_function_exponent (agents_list ?S' ! j)"
  proof (intro allI impI)
    fix j
    assume "j < length (agents_list ?S')"
    then have j: "j < length ?as"
      by simp
    from sim_inv_agent [OF inv j] sim_inv_agent [OF inv i] nth' [OF j]
    show "id_number (agents_list ?S' ! j) = j
      \<and> 0 \<le> agent.choice_function_exponent (agents_list ?S' ! j)"
      by (cases "j = i") simp_all
  qed
  have a6: "\<forall>A \<in> set (agents_list ?S'). \<forall>t. technology A = Some t \<longrightarrow> t < nat (n_technologies ?S')"
  proof (intro ballI allI impI)
    fix A t
    assume "A \<in> set (agents_list ?S')" and t: "technology A = Some t"
    then have "A \<in> insert ?B (set ?as)"
      using set_update_subset_insert [of ?as i ?B] by auto
    then show "t < nat (n_technologies ?S')"
      using t new sim_inv_tech_range [OF inv, of A t] by auto
  qed
  have a7: "\<forall>t < nat (n_technologies ?S').
      tech_frequency ?S' t = Some (int (count_tech (agents_list ?S') t))"
    using tfv' by simp
  have a8: "\<forall>t < nat (n_technologies ?S'). \<exists>h. history_tech_frequency ?S' t = Some h"
    using sim_inv_history [OF inv] by simp
  have "sim_inv ?S'"
    unfolding sim_inv_def using a1 a2 a3 a4 a5 a6 a7 a8 by blast
  with tf' show ?thesis
    by blast
qed

text \<open>What \<open>activate\<close> does under the invariant.\<close>

lemma activate_inv:
  assumes inv: "sim_inv S" and d: "\<forall>k. 0 \<le> rs k \<and> rs k < 1"
  shows "\<exists>as' tf' pos'. activate rs (S, pos) = Inr (S\<lparr>agents_list := as', tech_frequency := tf'\<rparr>, pos')
     \<and> sim_inv (S\<lparr>agents_list := as', tech_frequency := tf'\<rparr>)"
proof -
  have same: "S\<lparr>agents_list := agents_list S, tech_frequency := tech_frequency S\<rparr> = S"
    by simp
  have n: "0 < length (agents_list S)"
    using sim_inv_agents [OF inv] by simp
  from np_random_choice_range [OF n] d obtain i where
    i: "i < length (agents_list S)" "np_random_choice (length (agents_list S)) (rs pos) = Inr i"
    by blast
  let ?tech = "technology (agents_list S ! i)"
  let ?pos1 = "if ?tech = None then Suc pos else Suc (Suc pos)"
  show ?thesis
  proof (cases "?tech = None \<or> rs (Suc pos) < reconsideration_probability S")
    case False
    then have "activate rs (S, pos) = Inr (S, ?pos1)"
      using i(2) by (auto simp: activate_def get_technology_def Let_def)
    with inv same show ?thesis
      by metis
  next
    case True
    have "rs ?pos1 < 1"
      using d by simp
    from agent_choose_cases [of S i rs ?pos1, OF inv i(1) this]
    show ?thesis
    proof
      assume c: "agent_choose rs S ?pos1 i = Inr ((None, None), S, ?pos1)"
      have "activate rs (S, pos) = Inr (S, ?pos1)"
        using i(2) True c
        by (simp add: activate_def get_technology_def Let_def update_frequency_def)
      with inv same show ?thesis
        by metis
    next
      assume "\<exists>new < nat (n_technologies S).
          agent_choose rs S ?pos1 i =
            Inr ((?tech, Some new),
                 S\<lparr>agents_list := (agents_list S)[i := (agents_list S ! i)\<lparr>technology := Some new\<rparr>]\<rparr>,
                 Suc ?pos1)"
      then obtain new where new: "new < nat (n_technologies S)"
        and c: "agent_choose rs S ?pos1 i =
            Inr ((?tech, Some new),
                 S\<lparr>agents_list := (agents_list S)[i := (agents_list S ! i)\<lparr>technology := Some new\<rparr>]\<rparr>,
                 Suc ?pos1)"
        by blast
      from update_frequency_inv [OF inv i(1) new] obtain tf' where
        tf': "update_frequency (tech_frequency S) ?tech (Some new) = Inr tf'"
        "sim_inv (S\<lparr>agents_list := (agents_list S)[i := (agents_list S ! i)\<lparr>technology := Some new\<rparr>],
                 tech_frequency := tf'\<rparr>)"
        by blast
      have "activate rs (S, pos) =
          Inr (S\<lparr>agents_list := (agents_list S)[i := (agents_list S ! i)\<lparr>technology := Some new\<rparr>],
                 tech_frequency := tf'\<rparr>, Suc ?pos1)"
        using i(2) True c tf'(1)
        by (simp add: activate_def get_technology_def Let_def)
      with tf'(2) show ?thesis
        by blast
    qed
  qed
qed

lemma record_state_ok:
  assumes "distinct ts"
    and "\<forall>t \<in> set ts. (\<exists>h. history_tech_frequency S t = Some h) \<and> (\<exists>c. tech_frequency S t = Some c)"
    and "n_agents S \<noteq> 0"
  shows "\<exists>H. record_state S ts = Inr (S\<lparr>history_tech_frequency := H\<rparr>)
     \<and> (\<forall>t. H t =
          (if t \<in> set ts
           then Some (the (history_tech_frequency S t)
                      @ [real_of_int (the (tech_frequency S t)) / real_of_int (n_agents S)])
           else history_tech_frequency S t))"
  using assms
proof (induction ts arbitrary: S)
  case Nil
  have "S\<lparr>history_tech_frequency := history_tech_frequency S\<rparr> = S"
    by simp
  then show ?case
    by (metis record_state.simps(1) empty_iff empty_set)
next
  case (Cons i rest)
  from Cons.prems(2) obtain h c where h: "history_tech_frequency S i = Some h"
    and c: "tech_frequency S i = Some c"
    by auto
  let ?x = "real_of_int c / real_of_int (n_agents S)"
  let ?S1 = "S\<lparr>history_tech_frequency := (history_tech_frequency S)(i \<mapsto> h @ [?x])\<rparr>"
  have unf: "record_state S (i # rest) = record_state ?S1 rest"
    using h c Cons.prems(3) by (simp add: py_truediv_def)
  have p1: "distinct rest" and ni: "i \<notin> set rest"
    using Cons.prems(1) by simp_all
  have p2: "\<forall>t \<in> set rest. (\<exists>h. history_tech_frequency ?S1 t = Some h)
      \<and> (\<exists>c. tech_frequency ?S1 t = Some c)"
    using Cons.prems(2) by simp
  have p3: "n_agents ?S1 \<noteq> 0"
    using Cons.prems(3) by simp
  from Cons.IH [OF p1 p2 p3] obtain H where
    H: "record_state ?S1 rest = Inr (?S1\<lparr>history_tech_frequency := H\<rparr>)"
    "\<forall>t. H t =
          (if t \<in> set rest
           then Some (the (history_tech_frequency ?S1 t)
                      @ [real_of_int (the (tech_frequency ?S1 t)) / real_of_int (n_agents ?S1)])
           else history_tech_frequency ?S1 t)"
    by blast
  have "record_state S (i # rest) = Inr (S\<lparr>history_tech_frequency := H\<rparr>)"
    using unf H(1) by simp
  moreover have "\<forall>t. H t =
          (if t \<in> set (i # rest)
           then Some (the (history_tech_frequency S t)
                      @ [real_of_int (the (tech_frequency S t)) / real_of_int (n_agents S)])
           else history_tech_frequency S t)"
    using H(2) ni h c by auto
  ultimately show ?case
    by blast
qed

lemma sim_inv_share_range:
  assumes "sim_inv S" "t < nat (n_technologies S)"
  shows "0 \<le> real_of_int (the (tech_frequency S t)) / real_of_int (n_agents S)
     \<and> real_of_int (the (tech_frequency S t)) / real_of_int (n_agents S) \<le> 1"
proof -
  have c: "the (tech_frequency S t) = int (count_tech (agents_list S) t)"
    using sim_inv_counter [OF assms] by simp
  have "int (count_tech (agents_list S) t) \<le> n_agents S"
    using count_tech_le_length [of "agents_list S" t] sim_inv_agents [OF assms(1)] by linarith
  moreover have "0 < n_agents S"
    using sim_inv_agents [OF assms(1)] by simp
  ultimately show ?thesis
    by (simp add: c)
qed


text \<open>One iteration keeps the invariants and appends one sample to every history.\<close>

lemma step_inv:
  assumes inv: "sim_inv S" and hinv: "hist_inv S" and d: "\<forall>k. 0 \<le> rs k \<and> rs k < 1"
  shows "\<exists>S' pos'. step rs (S, pos) t = Inr (S', pos')
     \<and> sim_inv S' \<and> hist_inv S'
     \<and> history_t S' = history_t S @ [t]
     \<and> n_agents S' = n_agents S \<and> n_technologies S' = n_technologies S \<and> t_max S' = t_max S"
proof -
  from activate_inv [OF inv d, of pos] obtain as' tf' pos' where
    act: "activate rs (S, pos) = Inr (S\<lparr>agents_list := as', tech_frequency := tf'\<rparr>, pos')"
    and inv1: "sim_inv (S\<lparr>agents_list := as', tech_frequency := tf'\<rparr>)"
    by blast
  let ?S1 = "S\<lparr>agents_list := as', tech_frequency := tf'\<rparr>"
  let ?K = "nat (n_technologies S)"
  have r: "py_range (n_technologies ?S1) = [0..<?K]"
    by (simp add: py_range_def)
  have q1: "distinct [0..<?K]"
    by simp
  have q2: "\<forall>t \<in> set [0..<?K]. (\<exists>h. history_tech_frequency ?S1 t = Some h)
      \<and> (\<exists>c. tech_frequency ?S1 t = Some c)"
    using sim_inv_history [OF inv1] sim_inv_counter [OF inv1] by simp
  have q3: "n_agents ?S1 \<noteq> 0"
    using sim_inv_agents [OF inv1] by simp
  from record_state_ok [OF q1 q2 q3] obtain H where
    rec: "record_state ?S1 [0..<?K] = Inr (?S1\<lparr>history_tech_frequency := H\<rparr>)"
    and H: "\<forall>u. H u =
          (if u \<in> set [0..<?K]
           then Some (the (history_tech_frequency ?S1 u)
                      @ [real_of_int (the (tech_frequency ?S1 u)) / real_of_int (n_agents ?S1)])
           else history_tech_frequency ?S1 u)"
    by blast
  let ?S2 = "?S1\<lparr>history_tech_frequency := H, history_t := history_t S @ [t]\<rparr>"
  have st: "step rs (S, pos) t = Inr (?S2, pos')"
    using act rec r by (simp add: step_def)
  have inv2: "sim_inv ?S2"
  proof -
    have "\<forall>u < nat (n_technologies ?S2). \<exists>h. history_tech_frequency ?S2 u = Some h"
      using H by simp
    moreover have "technologies_list ?S2 = py_range (n_technologies ?S2)"
      "length (G ?S2) = length (agents_list ?S2)"
      "\<forall>ns \<in> set (G ?S2). \<forall>N \<in> set ns. N < length (agents_list ?S2)"
      using sim_inv_structure [OF inv1] by simp_all
    moreover have "0 < n_agents ?S2 \<and> length (agents_list ?S2) = nat (n_agents ?S2)"
      using sim_inv_agents [OF inv1] by simp
    moreover have "\<forall>i < length (agents_list ?S2).
           id_number (agents_list ?S2 ! i) = i
           \<and> 0 \<le> agent.choice_function_exponent (agents_list ?S2 ! i)"
      using sim_inv_agent [OF inv1] by simp
    moreover have "\<forall>A \<in> set (agents_list ?S2). \<forall>t. technology A = Some t \<longrightarrow>
        t < nat (n_technologies ?S2)"
      using sim_inv_tech_range [OF inv1] by simp
    moreover have "\<forall>t < nat (n_technologies ?S2).
           tech_frequency ?S2 t = Some (int (count_tech (agents_list ?S2) t))"
      using sim_inv_counter [OF inv1] by simp
    ultimately show ?thesis
      unfolding sim_inv_def by blast
  qed
  have hinv2: "hist_inv ?S2"
    unfolding hist_inv_def
  proof (intro allI impI)
    fix u h'
    assume a: "history_tech_frequency ?S2 u = Some h'"
    then have Hu: "H u = Some h'"
      by simp
    show "u < nat (n_technologies ?S2) \<and> length h' = length (history_t ?S2)
        \<and> (\<forall>x \<in> set h'. 0 \<le> x \<and> x \<le> 1)"
    proof (cases "u < ?K")
      case False
      with H Hu have "history_tech_frequency S u = Some h'"
        by simp
      with hinv False show ?thesis
        by (auto simp: hist_inv_def)
    next
      case True
      from sim_inv_history [OF inv1] True obtain h where h: "history_tech_frequency S u = Some h"
        by auto
      from hinv h have hl: "length h = length (history_t S)" "\<forall>x \<in> set h. 0 \<le> x \<and> x \<le> 1"
        by (auto simp: hist_inv_def)
      have h': "h' = h @ [real_of_int (the (tech_frequency ?S1 u)) / real_of_int (n_agents ?S1)]"
        using H Hu True h by simp
      from sim_inv_share_range [OF inv1, of u] True hl
      show ?thesis
        by (auto simp: h')
    qed
  qed
  from st inv2 hinv2 show ?thesis
    by (intro exI [of _ ?S2] exI [of _ pos']) simp
qed

lemma steps_inv:
  assumes "sim_inv S" "hist_inv S" "\<forall>k. 0 \<le> rs k \<and> rs k < 1"
  shows "\<exists>S' pos'. steps rs (S, pos) ts = Inr (S', pos')
     \<and> sim_inv S' \<and> hist_inv S'
     \<and> history_t S' = history_t S @ ts
     \<and> n_agents S' = n_agents S \<and> n_technologies S' = n_technologies S \<and> t_max S' = t_max S"
  using assms(1,2)
proof (induction ts arbitrary: S pos)
  case Nil
  then show ?case by simp
next
  case (Cons t ts)
  from step_inv [OF Cons.prems assms(3), of pos t] obtain S1 pos1 where
    s1: "step rs (S, pos) t = Inr (S1, pos1)" "sim_inv S1" "hist_inv S1"
    "history_t S1 = history_t S @ [t]"
    "n_agents S1 = n_agents S" "n_technologies S1 = n_technologies S" "t_max S1 = t_max S"
    by blast
  from Cons.IH [OF s1(2,3), of pos1] obtain S' pos' where
    "steps rs (S1, pos1) ts = Inr (S', pos')" "sim_inv S'" "hist_inv S'"
    "history_t S' = history_t S1 @ ts"
    "n_agents S' = n_agents S1" "n_technologies S' = n_technologies S1" "t_max S' = t_max S1"
    by blast
  with s1 show ?case
    by simp
qed

section \<open>The constructor\<close>

lemma seed_technology_inv:
  assumes "j \<le> length early" "distinct early"
    and "\<forall>e \<in> set early. e < length as \<and> technology (as ! e) = None"
  shows "\<exists>as'. seed_technology early as tech j = Inr (take (length early - j) early, as')
     \<and> length as' = length as
     \<and> (\<forall>t. count_tech as' t = count_tech as t + (if t = tech then j else 0))
     \<and> (\<forall>e \<in> set (take (length early - j) early). technology (as' ! e) = None)
     \<and> (\<forall>k < length as.
           id_number (as' ! k) = id_number (as ! k)
           \<and> agent.choice_function_exponent (as' ! k) = agent.choice_function_exponent (as ! k)
           \<and> (technology (as' ! k) = technology (as ! k) \<or> technology (as' ! k) = Some tech))"
  using assms
proof (induction j arbitrary: early as)
  case 0
  then show ?case by simp
next
  case (Suc j)
  let ?e = "last early"
  let ?early1 = "butlast early"
  let ?as1 = "as[?e := set_technology (as ! ?e) tech]"
  have ne: "early \<noteq> []"
    using Suc.prems(1) by auto
  have split: "early = ?early1 @ [?e]"
    using ne by simp
  have e: "?e < length as" "technology (as ! ?e) = None"
    using Suc.prems(3) ne by simp_all
  have d1: "distinct ?early1"
    using Suc.prems(2) by (simp add: distinct_butlast)
  have notin: "?e \<notin> set ?early1"
    using Suc.prems(2) split by (metis distinct_append disjoint_iff list.set_intros(1))
  have p3: "\<forall>e' \<in> set ?early1. e' < length ?as1 \<and> technology (?as1 ! e') = None"
  proof
    fix e'
    assume m: "e' \<in> set ?early1"
    then have "e' \<in> set early" and "e' \<noteq> ?e"
      using notin by (auto dest: in_set_butlastD)
    with Suc.prems(3) show "e' < length ?as1 \<and> technology (?as1 ! e') = None"
      by simp
  qed
  have p1: "j \<le> length ?early1"
    using Suc.prems(1) by simp
  from Suc.IH [OF p1 d1 p3] obtain as' where
    r: "seed_technology ?early1 ?as1 tech j = Inr (take (length ?early1 - j) ?early1, as')"
    and l: "length as' = length ?as1"
    and c: "\<forall>t. count_tech as' t = count_tech ?as1 t + (if t = tech then j else 0)"
    and n: "\<forall>e \<in> set (take (length ?early1 - j) ?early1). technology (as' ! e) = None"
    and k: "\<forall>k < length ?as1.
           id_number (as' ! k) = id_number (?as1 ! k)
           \<and> agent.choice_function_exponent (as' ! k) = agent.choice_function_exponent (?as1 ! k)
           \<and> (technology (as' ! k) = technology (?as1 ! k) \<or> technology (as' ! k) = Some tech)"
    by blast
  have tk: "take (length ?early1 - j) ?early1 = take (length early - Suc j) early"
    using Suc.prems(1) by (simp add: take_butlast)
  have c1: "count_tech ?as1 t = count_tech as t + (if t = tech then 1 else 0)" for t
    using count_tech_update [OF e(1), of "set_technology (as ! ?e) tech" t] e(2)
    by (simp add: set_technology_def)
  have k1: "id_number (?as1 ! k) = id_number (as ! k)
      \<and> agent.choice_function_exponent (?as1 ! k) = agent.choice_function_exponent (as ! k)
      \<and> (technology (?as1 ! k) = technology (as ! k) \<or> technology (?as1 ! k) = Some tech)"
    if "k < length as" for k
    using that by (cases "k = ?e") (simp_all add: set_technology_def)
  have "seed_technology early as tech (Suc j) = Inr (take (length early - Suc j) early, as')"
    using ne r tk by simp
  moreover have "length as' = length as"
    using l by simp
  moreover have "\<forall>t. count_tech as' t = count_tech as t + (if t = tech then Suc j else 0)"
    using c c1 by simp
  moreover have "\<forall>e \<in> set (take (length early - Suc j) early). technology (as' ! e) = None"
    using n tk by simp
  moreover have "\<forall>k < length as.
           id_number (as' ! k) = id_number (as ! k)
           \<and> agent.choice_function_exponent (as' ! k) = agent.choice_function_exponent (as ! k)
           \<and> (technology (as' ! k) = technology (as ! k) \<or> technology (as' ! k) = Some tech)"
  proof (intro allI impI)
    fix k
    assume kk: "k < length as"
    then have "k < length ?as1"
      by simp
    with k k1 [OF kk] show "id_number (as' ! k) = id_number (as ! k)
           \<and> agent.choice_function_exponent (as' ! k) = agent.choice_function_exponent (as ! k)
           \<and> (technology (as' ! k) = technology (as ! k) \<or> technology (as' ! k) = Some tech)"
      by metis
  qed
  ultimately show ?case
    by blast
qed

lemma seed_all_inv:
  assumes "techs = [0..<K]" "0 \<le> n_init"
    and "set idxs \<subseteq> {..<K}"
    and "length idxs * nat n_init \<le> length early"
    and "distinct early"
    and "\<forall>e \<in> set early. e < length as \<and> technology (as ! e) = None"
    and "\<forall>t < K. tf t = Some (int (count_tech as t))"
    and "\<forall>k < length as. id_number (as ! k) = k \<and> agent.choice_function_exponent (as ! k) = a
           \<and> (\<forall>t. technology (as ! k) = Some t \<longrightarrow> t < K)"
  shows "\<exists>as' tf'. seed_all techs n_init early as tf idxs = Inr (as', tf')
     \<and> length as' = length as
     \<and> (\<forall>t < K. tf' t = Some (int (count_tech as' t)))
     \<and> (\<forall>k < length as'. id_number (as' ! k) = k \<and> agent.choice_function_exponent (as' ! k) = a
           \<and> (\<forall>t. technology (as' ! k) = Some t \<longrightarrow> t < K))"
  using assms(3-)
proof (induction idxs arbitrary: early as tf)
  case Nil
  then show ?case by simp
next
  case (Cons i rest)
  have i: "i < K" and rest: "set rest \<subseteq> {..<K}"
    using Cons.prems(1) by simp_all
  have ti: "techs ! i = i" "\<not> length techs \<le> i"
    using i assms(1) by simp_all
  have j: "nat n_init \<le> length early"
    using Cons.prems(2) by simp
  from seed_technology_inv [OF j Cons.prems(3,4), of i] obtain as1 where
    r: "seed_technology early as i (nat n_init) = Inr (take (length early - nat n_init) early, as1)"
    and l: "length as1 = length as"
    and c: "\<forall>t. count_tech as1 t = count_tech as t + (if t = i then nat n_init else 0)"
    and n: "\<forall>e \<in> set (take (length early - nat n_init) early). technology (as1 ! e) = None"
    and k: "\<forall>k < length as.
           id_number (as1 ! k) = id_number (as ! k)
           \<and> agent.choice_function_exponent (as1 ! k) = agent.choice_function_exponent (as ! k)
           \<and> (technology (as1 ! k) = technology (as ! k) \<or> technology (as1 ! k) = Some i)"
    by blast
  let ?early1 = "take (length early - nat n_init) early"
  let ?tf1 = "tf(i \<mapsto> int (count_tech as i) + n_init)"
  have da: "dict_add tf i n_init = Inr ?tf1"
    using Cons.prems(5) i by (simp add: dict_add_def)
  have q2: "length rest * nat n_init \<le> length ?early1"
    using Cons.prems(2) by simp
  have q3: "distinct ?early1"
    using Cons.prems(3) by simp
  have q4: "\<forall>e \<in> set ?early1. e < length as1 \<and> technology (as1 ! e) = None"
    using n l Cons.prems(4) by (auto dest: in_set_takeD)
  have q5: "\<forall>t < K. ?tf1 t = Some (int (count_tech as1 t))"
    using Cons.prems(5) c assms(2) by simp
  have q6: "\<forall>k < length as1. id_number (as1 ! k) = k \<and> agent.choice_function_exponent (as1 ! k) = a
           \<and> (\<forall>t. technology (as1 ! k) = Some t \<longrightarrow> t < K)"
  proof (intro allI impI)
    fix k
    assume "k < length as1"
    then have kk: "k < length as"
      using l by simp
    from k kk Cons.prems(6) i
    show "id_number (as1 ! k) = k \<and> agent.choice_function_exponent (as1 ! k) = a
           \<and> (\<forall>t. technology (as1 ! k) = Some t \<longrightarrow> t < K)"
      by (metis option.inject)
  qed
  from Cons.IH [OF rest q2 q3 q4 q5 q6] obtain as' tf' where
    "seed_all techs n_init ?early1 as1 ?tf1 rest = Inr (as', tf')"
    "length as' = length as1"
    "\<forall>t < K. tf' t = Some (int (count_tech as' t))"
    "\<forall>k < length as'. id_number (as' ! k) = k \<and> agent.choice_function_exponent (as' ! k) = a
           \<and> (\<forall>t. technology (as' ! k) = Some t \<longrightarrow> t < K)"
    by blast
  with r da ti l show ?case
    by simp
qed

lemma initial_history_ok:
  assumes "\<forall>t \<in> set ts. \<exists>c. tf t = Some c" "n \<noteq> 0"
  shows "\<exists>H. initial_history tf n h ts = Inr H
     \<and> (\<forall>t. H t = (if t \<in> set ts then Some [real_of_int (the (tf t)) / real_of_int n] else h t))"
  using assms(1)
proof (induction ts arbitrary: h)
  case Nil
  then show ?case by simp
next
  case (Cons t ts)
  then obtain c where c: "tf t = Some c"
    by auto
  let ?h1 = "h(t \<mapsto> [real_of_int c / real_of_int n])"
  from Cons obtain H where H: "initial_history tf n ?h1 ts = Inr H"
    "\<forall>u. H u = (if u \<in> set ts then Some [real_of_int (the (tf u)) / real_of_int n] else ?h1 u)"
    by (metis list.set_intros(2))
  have "initial_history tf n h (t # ts) = Inr H"
    using c H(1) assms(2) by (simp add: py_truediv_def)
  moreover have "\<forall>u. H u = (if u \<in> set (t # ts)
      then Some [real_of_int (the (tf u)) / real_of_int n] else h u)"
    using H(2) c by auto
  ultimately show ?case
    by blast
qed

lemma count_tech_fresh: "count_tech (map (\<lambda>i. Agent i a) xs) t = 0"
  by (induction xs) (simp_all add: count_tech_def Agent_def)

lemma Simulation_inv:
  assumes vc: "valid_config cfg" and vn: "valid_network cfg net"
    and vs: "valid_sample cfg net sample"
  shows "\<exists>S0. Simulation cfg net sample = Inr S0
     \<and> sim_inv S0 \<and> hist_inv S0 \<and> history_t S0 = [0]
     \<and> n_agents S0 = n_agents cfg \<and> n_technologies S0 = n_technologies cfg
     \<and> t_max S0 = t_max cfg
     \<and> reconsideration_probability S0 = reconsideration_probability cfg"
proof -
  let ?K = "nat (n_technologies cfg)"
  let ?a = "config.choice_function_exponent cfg"
  let ?as = "map (\<lambda>i. Agent i ?a) [0..<length net]"
  let ?tf = "dict_const [0..<?K] (0::int)"
  have n: "0 < n_agents cfg" and K: "2 \<le> n_technologies cfg" and ni: "1 \<le> n_initial_adopters cfg"
    and le: "n_technologies cfg * n_initial_adopters cfg \<le> n_agents cfg"
    and known: "known_network_type (network_type cfg)"
    using vc by (simp_all add: valid_config_def)
  have ln: "length net = nat (n_agents cfg)"
    and gr: "\<forall>ns \<in> set net. \<forall>N \<in> set ns. N < length net"
    using vn unfolding valid_network_def by blast+
  have ls: "length sample = nat (n_technologies cfg * n_initial_adopters cfg)"
    and ds: "distinct sample" and rs: "\<forall>e \<in> set sample. e < length net"
    using vs unfolding valid_sample_def by blast+
  have prod: "0 \<le> n_technologies cfg * n_initial_adopters cfg"
    using K ni by simp
  have smp: "np_random_choice_sample (length ?as)
      (n_technologies cfg * n_initial_adopters cfg) sample = Inr sample"
    using prod le ln n by (simp add: np_random_choice_sample_def)
  have p1: "[0..<?K] = [0..<?K]" ..
  have p2: "0 \<le> n_initial_adopters cfg"
    using ni by simp
  have p3: "set [0..<?K] \<subseteq> {..<?K}"
    by auto
  have p4: "length [0..<?K] * nat (n_initial_adopters cfg) \<le> length sample"
    using K ni by (simp add: ls nat_mult_distrib)
  have p6: "\<forall>e \<in> set sample. e < length ?as \<and> technology (?as ! e) = None"
    using rs by (simp add: Agent_def)
  have p7: "\<forall>t < ?K. ?tf t = Some (int (count_tech ?as t))"
    by (simp add: dict_const_apply count_tech_fresh)
  have p8: "\<forall>k < length ?as. id_number (?as ! k) = k
      \<and> agent.choice_function_exponent (?as ! k) = ?a
      \<and> (\<forall>t. technology (?as ! k) = Some t \<longrightarrow> t < ?K)"
    by (simp add: Agent_def)
  from seed_all_inv [OF p1 p2 p3 p4 ds p6 p7 p8] obtain as' tf' where
    seed: "seed_all [0..<?K] (n_initial_adopters cfg) sample ?as ?tf [0..<?K] = Inr (as', tf')"
    and l: "length as' = length ?as"
    and c: "\<forall>t < ?K. tf' t = Some (int (count_tech as' t))"
    and k: "\<forall>k < length as'. id_number (as' ! k) = k
      \<and> agent.choice_function_exponent (as' ! k) = ?a
      \<and> (\<forall>t. technology (as' ! k) = Some t \<longrightarrow> t < ?K)"
    by blast
  have h1: "\<forall>t \<in> set [0..<?K]. \<exists>c. tf' t = Some c"
    using c by simp
  have h2: "n_agents cfg \<noteq> 0"
    using n by simp
  from initial_history_ok [OF h1 h2, of Map.empty] obtain H where
    ih: "initial_history tf' (n_agents cfg) Map.empty [0..<?K] = Inr H"
    and H: "\<forall>t. H t = (if t \<in> set [0..<?K]
        then Some [real_of_int (the (tf' t)) / real_of_int (n_agents cfg)] else None)"
    by blast
  define S0 where "S0 =
     \<lparr>n_agents = n_agents cfg,
      n_technologies = n_technologies cfg,
      n_initial_adopters = n_initial_adopters cfg,
      reconsideration_probability = reconsideration_probability cfg,
      choice_function_exponent = config.choice_function_exponent cfg,
      network_type = network_type cfg,
      t_max = t_max cfg,
      technologies_list = [0..<?K],
      tech_frequency = tf',
      G = net,
      agents_list = as',
      history_tech_frequency = H,
      history_t = [0]\<rparr>"
  have res: "Simulation cfg net sample = Inr S0"
    using known smp seed ih by (simp add: Simulation_def py_range_def Let_def S0_def)
  have la: "length as' = nat (n_agents cfg)"
    using l ln by simp
  have tr: "\<forall>A \<in> set as'. \<forall>t. technology A = Some t \<longrightarrow> t < ?K"
    using k by (metis in_set_conv_nth)
  have inv: "sim_inv S0"
    unfolding sim_inv_def
  proof (intro conjI)
    show "technologies_list S0 = py_range (n_technologies S0)"
      by (simp add: S0_def py_range_def)
    show "0 < n_agents S0"
      using n by (simp add: S0_def)
    show "length (agents_list S0) = nat (n_agents S0)"
      using la by (simp add: S0_def)
    show "length (G S0) = length (agents_list S0)"
      using la ln by (simp add: S0_def)
    show "\<forall>ns \<in> set (G S0). \<forall>N \<in> set ns. N < length (agents_list S0)"
      using gr la ln by (simp add: S0_def)
    show "\<forall>i < length (agents_list S0). id_number (agents_list S0 ! i) = i
        \<and> 0 \<le> agent.choice_function_exponent (agents_list S0 ! i)"
      using k vc by (simp add: S0_def valid_config_def)
    show "\<forall>A \<in> set (agents_list S0). \<forall>t. technology A = Some t \<longrightarrow> t < nat (n_technologies S0)"
      using tr by (simp add: S0_def)
    show "\<forall>t < nat (n_technologies S0).
        tech_frequency S0 t = Some (int (count_tech (agents_list S0) t))"
      using c by (simp add: S0_def)
    show "\<forall>t < nat (n_technologies S0). \<exists>h. history_tech_frequency S0 t = Some h"
      using H by (simp add: S0_def)
  qed
  have hinv: "hist_inv S0"
    unfolding hist_inv_def
  proof (intro allI impI)
    fix u h
    assume "history_tech_frequency S0 u = Some h"
    then have Hu: "H u = Some h"
      by (simp add: S0_def)
    with H have u: "u < ?K" and h: "h = [real_of_int (the (tf' u)) / real_of_int (n_agents cfg)]"
      by (auto split: if_splits)
    from sim_inv_share_range [OF inv, of u] u
    have "0 \<le> real_of_int (the (tf' u)) / real_of_int (n_agents cfg)
        \<and> real_of_int (the (tf' u)) / real_of_int (n_agents cfg) \<le> 1"
      by (simp add: S0_def)
    with u h show "u < nat (n_technologies S0) \<and> length h = length (history_t S0)
        \<and> (\<forall>x \<in> set h. 0 \<le> x \<and> x \<le> 1)"
      by (simp add: S0_def)
  qed
  from res inv hinv show ?thesis
    by (intro exI [of _ S0]) (simp add: S0_def)
qed

section \<open>What a step changes and which draws it reads\<close>

lemma map_int_upt: "map int [0..<n] = [0..int n - 1]"
proof (induction n)
  case 0
  then show ?case by simp
next
  case (Suc n)
  have "[0..int (Suc n) - 1] = [0..int n - 1] @ [int n]"
    using upto_rec2 [of 0 "int n"] by simp
  with Suc show ?case
    by simp
qed

lemma time_range_upto: "time_range tmax = [0..tmax]"
proof (cases "0 \<le> tmax")
  case True
  then have "int (nat (tmax + 1)) - 1 = tmax"
    by simp
  then show ?thesis
    by (simp add: time_range_def py_range_def map_int_upt)
next
  case False
  then show ?thesis
    by (simp add: time_range_def py_range_def)
qed

lemma record_state_frame:
  "record_state S ts = Inr S' \<Longrightarrow> \<exists>H. S' = S\<lparr>history_tech_frequency := H\<rparr>"
proof (induction ts arbitrary: S)
  case Nil
  then have "S' = S\<lparr>history_tech_frequency := history_tech_frequency S\<rparr>"
    by simp
  then show ?case by blast
next
  case (Cons i rest)
  from Cons.prems obtain h x where
    "record_state (S\<lparr>history_tech_frequency := (history_tech_frequency S)(i \<mapsto> h @ [x])\<rparr>) rest = Inr S'"
    by (auto split: option.splits sum.splits)
  from Cons.IH [OF this] show ?case
    by auto
qed

lemma agent_choose_frame:
  assumes "agent_choose rs S pos i = Inr (r, S', pos')"
  shows "(r = (None, None) \<and> S' = S \<and> pos' = pos)
     \<or> (\<exists>new. r = (technology (agents_list S ! i), Some new)
          \<and> S' = S\<lparr>agents_list := (agents_list S)[i := (agents_list S ! i)\<lparr>technology := Some new\<rparr>]\<rparr>
          \<and> pos' = Suc pos)"
  using assms by (auto simp: agent_choose_def Let_def split: sum.splits if_splits)


lemma activate_frame:
  assumes "activate rs (S, pos) = Inr (S', pos')"
  shows "\<exists>as' tf'. S' = S\<lparr>agents_list := as', tech_frequency := tf'\<rparr>
     \<and> pos \<le> pos' \<and> pos' \<le> pos + 3
     \<and> (reconsideration_probability S = 0 \<and> 0 \<le> rs (Suc pos) \<longrightarrow>
          (\<forall>j tech. technology (agents_list S ! j) = Some tech \<longrightarrow> technology (as' ! j) = Some tech))"
proof -
  have same: "S = S\<lparr>agents_list := agents_list S, tech_frequency := tech_frequency S\<rparr>"
    by simp
  from assms obtain i where i: "np_random_choice (length (agents_list S)) (rs pos) = Inr i"
    by (auto simp: activate_def split: sum.splits)
  let ?tech = "technology (agents_list S ! i)"
  let ?pos1 = "if ?tech = None then Suc pos else Suc (Suc pos)"
  show ?thesis
  proof (cases "?tech = None \<or> rs (Suc pos) < reconsideration_probability S")
    case False
    then have "S' = S" "pos' = ?pos1"
      using assms i by (auto simp: activate_def get_technology_def Let_def)
    then show ?thesis
      using same by (intro exI [of _ "agents_list S"] exI [of _ "tech_frequency S"]) auto
  next
    case True
    from assms i True obtain old new S1 tf where
      c: "agent_choose rs S ?pos1 i = Inr ((old, new), S1, pos')"
      and u: "update_frequency (tech_frequency S1) old new = Inr tf"
      and s: "S' = S1\<lparr>tech_frequency := tf\<rparr>"
      by (auto simp: activate_def get_technology_def Let_def split: sum.splits)
    from agent_choose_frame [OF c] show ?thesis
    proof
      assume "(old, new) = (None, None) \<and> S1 = S \<and> pos' = ?pos1"
      with s show ?thesis
        by (intro exI [of _ "agents_list S"] exI [of _ tf]) auto
    next
      assume "\<exists>n. (old, new) = (?tech, Some n)
          \<and> S1 = S\<lparr>agents_list := (agents_list S)[i := (agents_list S ! i)\<lparr>technology := Some n\<rparr>]\<rparr>
          \<and> pos' = Suc ?pos1"
      then obtain n where
        n: "S1 = S\<lparr>agents_list := (agents_list S)[i := (agents_list S ! i)\<lparr>technology := Some n\<rparr>]\<rparr>"
        "pos' = Suc ?pos1"
        by blast
      let ?as' = "(agents_list S)[i := (agents_list S ! i)\<lparr>technology := Some n\<rparr>]"
      have keep: "technology (?as' ! j) = Some tech"
        if "reconsideration_probability S = 0" "0 \<le> rs (Suc pos)"
          "technology (agents_list S ! j) = Some tech" for j tech
      proof -
        from True that(1,2) have "?tech = None"
          by auto
        with that(3) have "j \<noteq> i"
          by auto
        with that(3) show ?thesis
          by simp
      qed
      have "S' = S\<lparr>agents_list := ?as', tech_frequency := tf\<rparr>"
        using s n(1) by simp
      moreover have "pos \<le> pos' \<and> pos' \<le> pos + 3"
        using n(2) by simp
      ultimately show ?thesis
        using keep by blast
    qed
  qed
qed


lemma step_frame:
  assumes "step rs (S, pos) t = Inr (S', pos')"
  shows "\<exists>as' tf' H. S' = S\<lparr>agents_list := as', tech_frequency := tf',
                             history_tech_frequency := H, history_t := history_t S @ [t]\<rparr>
     \<and> pos \<le> pos' \<and> pos' \<le> pos + 3
     \<and> (reconsideration_probability S = 0 \<and> 0 \<le> rs (Suc pos) \<longrightarrow>
          (\<forall>j tech. technology (agents_list S ! j) = Some tech \<longrightarrow> technology (as' ! j) = Some tech))"
proof -
  from assms obtain S1 S2 where a: "activate rs (S, pos) = Inr (S1, pos')"
    and r: "record_state S1 (py_range (n_technologies S1)) = Inr S2"
    and s: "S' = S2\<lparr>history_t := history_t S2 @ [t]\<rparr>"
    by (auto simp: step_def split: sum.splits)
  from activate_frame [OF a] obtain as' tf' where
    f: "S1 = S\<lparr>agents_list := as', tech_frequency := tf'\<rparr>" "pos \<le> pos' \<and> pos' \<le> pos + 3"
    "reconsideration_probability S = 0 \<and> 0 \<le> rs (Suc pos) \<longrightarrow>
          (\<forall>j tech. technology (agents_list S ! j) = Some tech \<longrightarrow> technology (as' ! j) = Some tech)"
    by blast
  from record_state_frame [OF r] obtain H where "S2 = S1\<lparr>history_tech_frequency := H\<rparr>"
    by blast
  with s f(1) have "S' = S\<lparr>agents_list := as', tech_frequency := tf',
                             history_tech_frequency := H, history_t := history_t S @ [t]\<rparr>"
    by simp
  with f(2,3) show ?thesis
    by blast
qed


lemma steps_frame:
  assumes "steps rs (S, pos) ts = Inr (S', pos')"
  shows "history_t S' = history_t S @ ts \<and> t_max S' = t_max S
     \<and> reconsideration_probability S' = reconsideration_probability S
     \<and> pos' \<le> pos + 3 * length ts"
  using assms
proof (induction ts arbitrary: S pos)
  case Nil
  then show ?case by simp
next
  case (Cons t ts)
  then obtain S1 pos1 where s: "step rs (S, pos) t = Inr (S1, pos1)"
    and r: "steps rs (S1, pos1) ts = Inr (S', pos')"
    by (auto split: sum.splits)
  from step_frame [OF s] have "history_t S1 = history_t S @ [t]" "t_max S1 = t_max S"
    "reconsideration_probability S1 = reconsideration_probability S" "pos1 \<le> pos + 3"
    by auto
  with Cons.IH [OF r] show ?case
    by simp
qed

lemma steps_keep_technology:
  assumes "reconsideration_probability S = 0" "\<forall>k. 0 \<le> rs k"
    and "steps rs (S, pos) ts = Inr (S', pos')"
    and "technology (agents_list S ! j) = Some tech"
  shows "technology (agents_list S' ! j) = Some tech"
  using assms(1,3,4)
proof (induction ts arbitrary: S pos)
  case Nil
  then show ?case by simp
next
  case (Cons t ts)
  then obtain S1 pos1 where s: "step rs (S, pos) t = Inr (S1, pos1)"
    and r: "steps rs (S1, pos1) ts = Inr (S', pos')"
    by (auto split: sum.splits)
  from step_frame [OF s] Cons.prems(1,3) assms(2)
  have "reconsideration_probability S1 = 0" "technology (agents_list S1 ! j) = Some tech"
    by auto
  from Cons.IH [OF this(1) r this(2)] show ?case .
qed


lemma steps_append:
  "steps rs Sp (xs @ ys) = (case steps rs Sp xs of Inl e \<Rightarrow> Inl e | Inr Sp' \<Rightarrow> steps rs Sp' ys)"
  by (induction xs arbitrary: Sp) (auto split: sum.splits)

lemma Simulation_fields:
  assumes "Simulation cfg net sample = Inr S0"
  shows "history_t S0 = [0] \<and> t_max S0 = t_max cfg
     \<and> reconsideration_probability S0 = reconsideration_probability cfg
     \<and> n_agents S0 = n_agents cfg \<and> n_technologies S0 = n_technologies cfg"
  using assms
  by (auto simp: Simulation_def Let_def split: sum.splits if_splits prod.splits)

section \<open>Properties of construction and run\<close>







text \<open>
  C9. After a run of a constructed simulation the time sequence is \<open>0\<close> followed by
  \<open>0, 1, ..., t_max\<close>; for \<open>t_max \<ge> 0\<close> it starts with two zeros, so it is non-decreasing
  and not strictly increasing.
\<close>

theorem Simulation_run_history_t:
  assumes "Simulation cfg net sample = Inr S0" and "run rs S0 pos = Inr (S, pos')"
  shows "history_t S = 0 # [0..t_max cfg]
     \<and> (0 \<le> t_max cfg \<longrightarrow>
          take 2 (history_t S) = [0, 0] \<and> sorted (history_t S) \<and> \<not> sorted_wrt (<) (history_t S))"
proof -
  from Simulation_fields [OF assms(1)] have f: "history_t S0 = [0]" "t_max S0 = t_max cfg"
    by simp_all
  from steps_frame [of rs S0 pos "time_range (t_max S0)" S pos'] assms(2)
  have h: "history_t S = 0 # [0..t_max cfg]"
    by (simp add: run_def f time_range_upto)
  have "take 2 (history_t S) = [0, 0] \<and> sorted (history_t S) \<and> \<not> sorted_wrt (<) (history_t S)"
    if "0 \<le> t_max cfg"
  proof -
    have u: "[0..t_max cfg] = 0 # [1..t_max cfg]"
      using that by (simp add: upto_rec1)
    have "sorted (0 # [0..t_max cfg])"
      by (simp add: sorted_upto)
    then show ?thesis
      by (simp add: h u)
  qed
  with h show ?thesis
    by blast
qed

text \<open>
  C6. With \<open>reconsideration_probability = 0\<close>, an agent that holds a technology after
  \<open>k\<close> steps of the run (\<open>k = 0\<close>: by seeding) holds the same technology after any
  \<open>k' \<ge> k\<close> steps; so only agents without a technology change state.
\<close>

theorem no_reconsideration_keeps_technology:
  assumes "reconsideration_probability cfg = 0" and "\<forall>i. 0 \<le> rs i"
    and "Simulation cfg net sample = Inr S0"
    and "steps rs (S0, 0) (take k (time_range (t_max cfg))) = Inr (S1, pos1)"
    and "steps rs (S0, 0) (take k' (time_range (t_max cfg))) = Inr (S2, pos2)"
    and "k \<le> k'"
    and "technology (agents_list S1 ! j) = Some tech"
  shows "technology (agents_list S2 ! j) = Some tech"
proof -
  let ?ts = "time_range (t_max cfg)"
  have "take k' ?ts = take k ?ts @ drop k (take k' ?ts)"
    using assms(6) by (metis append_take_drop_id min.absorb1 take_take)
  then have "steps rs (S0, 0) (take k' ?ts)
      = (case steps rs (S0, 0) (take k ?ts) of
           Inl e \<Rightarrow> Inl e
         | Inr Sp \<Rightarrow> steps rs Sp (drop k (take k' ?ts)))"
    by (metis steps_append)
  with assms(4,5) have later: "steps rs (S1, pos1) (drop k (take k' ?ts)) = Inr (S2, pos2)"
    by simp
  have "reconsideration_probability S1 = 0"
    using steps_frame [OF assms(4)] Simulation_fields [OF assms(3)] assms(1) by simp
  from steps_keep_technology [OF this assms(2) later assms(7)] show ?thesis .
qed




section \<open>The properties on the example inputs\<close>

text \<open>The example inputs are valid, so constructor and run return on them.\<close>

lemma example_valid:
  "0 \<le> a \<Longrightarrow> 0 \<le> p \<Longrightarrow> p \<le> 1 \<Longrightarrow> 0 \<le> T \<Longrightarrow> valid_config (example_config a p T)"
  by (simp add: valid_config_def example_config_def known_network_type_def)

lemma net_pairs_valid: "valid_network (example_config a p T) net_pairs \<and> valid_sample (example_config a p T) net_pairs [2, 3]"
  by (simp add: valid_network_def valid_sample_def example_config_def net_pairs_def)

lemma net_star_valid: "valid_network (example_config a p T) net_star \<and> valid_sample (example_config a p T) net_star [3, 1]"
  by (simp add: valid_network_def valid_sample_def example_config_def net_star_def)

lemma draws_valid: "valid_draws half_draws \<and> valid_draws quarter_draws \<and> valid_draws zero_draws"
  by (simp add: valid_draws_def half_draws_def quarter_draws_def zero_draws_def)



lemma example_run_exists:
  assumes "valid_config cfg" "valid_network cfg net" "valid_sample cfg net sample" "valid_draws rs"
  shows "\<exists>S0 S pos. Simulation cfg net sample = Inr S0 \<and> run rs S0 0 = Inr (S, pos)"
proof -
  from Simulation_inv [OF assms(1-3)] obtain S0 where
    S0: "Simulation cfg net sample = Inr S0" "sim_inv S0" "hist_inv S0"
    by blast
  have d: "\<forall>k. 0 \<le> rs k \<and> rs k < 1"
    using assms(4) by (simp add: valid_draws_def)
  from steps_inv [OF S0(2,3) d, of 0 "time_range (t_max S0)"] S0(1) show ?thesis
    by (auto simp: run_def)
qed

theorem Simulation_run_history_t_witness:
  "\<exists>S0 S pos. Simulation (example_config 2 (1/5) 1) net_pairs [2, 3] = Inr S0
     \<and> run half_draws S0 0 = Inr (S, pos)
     \<and> history_t S = [0, 0, 1]
     \<and> sorted (history_t S) \<and> \<not> sorted_wrt (<) (history_t S)"
proof -
  have v: "valid_config (example_config 2 (1/5) 1)"
    by (rule example_valid) simp_all
  from example_run_exists [OF v conjunct1 [OF net_pairs_valid] conjunct2 [OF net_pairs_valid]
      conjunct1 [OF draws_valid]]
  obtain S0 S pos where
    a: "Simulation (example_config 2 (1/5) 1) net_pairs [2, 3] = Inr S0"
      "run half_draws S0 0 = Inr (S, pos)"
    by blast
  have t: "t_max (example_config 2 (1/5) 1) = 1"
    by (simp add: example_config_def)
  have u: "[0..1::int] = [0, 1]"
    by (simp add: upto_rec1)
  from Simulation_run_history_t [OF a] have "history_t S = [0, 0, 1]
     \<and> sorted (history_t S) \<and> \<not> sorted_wrt (<) (history_t S)"
    unfolding t u by simp
  with a show ?thesis
    by blast
qed


theorem no_reconsideration_keeps_technology_witness:
  "reconsideration_probability (example_config 2 0 1) = 0
   \<and> technology (agents_list (sim_star (example_config 2 0 1)) ! 1) = Some 0
   \<and> (\<exists>S pos. run quarter_draws (sim_star (example_config 2 0 1)) 0 = Inr (S, pos)
         \<and> technology (agents_list S ! 1) = Some 0)"
proof -
  let ?c = "example_config 2 0 1"
  have v: "valid_config ?c"
    by (rule example_valid) simp_all
  from example_run_exists [OF v conjunct1 [OF net_star_valid] conjunct2 [OF net_star_valid]
      conjunct1 [OF conjunct2 [OF draws_valid]]]
  obtain S0 S pos where
    a: "Simulation ?c net_star [3, 1] = Inr S0" "run quarter_draws S0 0 = Inr (S, pos)"
    by blast
  then have S0: "S0 = sim_star ?c"
    by (simp add: sim_star_def)
  have p: "reconsideration_probability ?c = 0"
    by (simp add: example_config_def)
  have nn: "\<forall>i. 0 \<le> quarter_draws i"
    by (simp add: quarter_draws_def)
  have tech: "technology (agents_list (sim_star ?c) ! 1) = Some 0"
    by (simp add: sim_star_def net_star_def construct_simps)
  have tr: "take 2 (time_range (t_max ?c)) = time_range (t_max ?c)"
    by (simp add: example_config_def time_range_def py_range_def)
  have k0: "steps quarter_draws (S0, 0) (take 0 (time_range (t_max ?c))) = Inr (S0, 0)"
    by simp
  have k2: "steps quarter_draws (S0, 0) (take 2 (time_range (t_max ?c))) = Inr (S, pos)"
    using a(2) Simulation_fields [OF a(1)] by (simp add: run_def tr)
  from no_reconsideration_keeps_technology [OF p nn a(1) k0 k2 _ tech [folded S0]]
  have "technology (agents_list S ! 1) = Some 0"
    by simp
  with a(2) p tech show ?thesis
    unfolding S0 by blast
qed



end
